theory Spec2Isabelle
  imports Complex_Main "HOL-Library.Word"
begin

section \<open>Images, arrays and the imaging library\<close>

text \<open>
  The renderer \<open>_pencil_sketch\<close> of \<open>sketch/views.py\<close> works on 8-bit images of the
  imaging library and on float32 arrays of the array library. A pixel channel is an
  8-bit word. An array element is modelled by a rational number: the arithmetic of the
  source is carried out exactly, the rounding error of float32 is not modelled.
  An image and an array both carry their width and height with a row-major buffer.
\<close>

type_synonym byte = "8 word"
type_synonym rgb = "byte \<times> byte \<times> byte"

record 'a raster =
  width :: nat
  height :: nat
  pixels :: "'a list"

type_synonym ndarray = "rat raster"

datatype error = DecodeError | ZeroDivisionError

text \<open>
  The neighbourhood filters, the histogram stretch, the resampler and the decoder belong
  to the imaging library, not to this repository. They are parameters of the model: the
  renderer is verified for every library. Each filter maps the buffer of an image of a
  given width and height to the buffer of an image of the same width and height, and the
  resampler returns the buffer of an image of the size it is asked for.

  The library routines whose result a claim depends on are written out instead, from
  the behaviour of the library: the conversion to luminance, the inversion, the maximum
  filter, the size rule of \<open>Image.thumbnail\<close> and \<open>np.percentile\<close>.
\<close>

record imaging =
  image_open :: "byte list \<Rightarrow> rgb raster option"
  resample :: "nat \<times> nat \<Rightarrow> rgb raster \<Rightarrow> rgb list"
  gaussian_blur :: "rat \<Rightarrow> nat \<Rightarrow> nat \<Rightarrow> byte list \<Rightarrow> byte list"
  unsharp_mask :: "rat \<Rightarrow> nat \<Rightarrow> nat \<Rightarrow> nat \<Rightarrow> nat \<Rightarrow> byte list \<Rightarrow> byte list"
  median_filter :: "nat \<Rightarrow> nat \<Rightarrow> nat \<Rightarrow> byte list \<Rightarrow> byte list"
  find_edges :: "nat \<Rightarrow> nat \<Rightarrow> byte list \<Rightarrow> byte list"
  autocontrast :: "rat \<Rightarrow> nat \<Rightarrow> nat \<Rightarrow> byte list \<Rightarrow> byte list"

definition filter_image :: "(nat \<Rightarrow> nat \<Rightarrow> byte list \<Rightarrow> byte list) \<Rightarrow> byte raster \<Rightarrow> byte raster" where
  "filter_image f img = img\<lparr>pixels := f (width img) (height img) (pixels img)\<rparr>"

text \<open>
  The conversions between the modes L and RGB, and the inversion of an L image. The
  luminance is the library's fixed-point form of \<open>0.299 R + 0.587 G + 0.114 B\<close>; an
  L image converted to RGB has its value in each channel.
\<close>

definition luma :: "rgb \<Rightarrow> byte" where
  "luma p = (case p of (r, g, b) \<Rightarrow>
     of_nat ((unat r * 19595 + unat g * 38470 + unat b * 7471 + 32768) div 65536))"

definition grayscale :: "rgb raster \<Rightarrow> byte raster" where
  "grayscale img = \<lparr>width = width img, height = height img, pixels = map luma (pixels img)\<rparr>"

definition convert_rgb :: "byte raster \<Rightarrow> rgb raster" where
  "convert_rgb img =
     \<lparr>width = width img, height = height img, pixels = map (\<lambda>v. (v, v, v)) (pixels img)\<rparr>"

definition invert :: "byte raster \<Rightarrow> byte raster" where
  "invert img = img\<lparr>pixels := map (\<lambda>v. 255 - v) (pixels img)\<rparr>"

text \<open>
  The maximum filter of size 3: every pixel becomes the largest value of its 3 by 3
  window, the image being extended at its border by its edge pixels.
\<close>

definition pixel_at :: "byte raster \<Rightarrow> int \<Rightarrow> int \<Rightarrow> byte" where
  "pixel_at img x y =
     (let cx = nat (max 0 (min (int (width img) - 1) x));
          cy = nat (max 0 (min (int (height img) - 1) y))
      in pixels img ! (cy * width img + cx))"

definition window3 :: "byte raster \<Rightarrow> nat \<Rightarrow> byte list" where
  "window3 img i =
     (let x = int (i mod width img); y = int (i div width img)
      in [pixel_at img (x + dx) (y + dy). dy \<leftarrow> [-1, 0, 1], dx \<leftarrow> [-1, 0, 1]])"

definition max_filter3 :: "byte raster \<Rightarrow> byte raster" where
  "max_filter3 img =
     img\<lparr>pixels := map (\<lambda>i. fold max (window3 img i) 0) [0..<width img * height img]\<rparr>"

text \<open>
  \<open>Image.thumbnail\<close>: the size that fits the requested box and keeps the aspect
  ratio, then a resampling to it. The image is left alone when it fits the box already.
  Of the floor and the ceiling of the exact edge, \<open>round_aspect\<close> takes the one
  whose aspect ratio is closer to the image's, the floor on a tie, and never less than 1.
  The quotient \<open>width / height\<close> raises on a height of zero. The library computes
  in floating point; the model computes the same quotients exactly.
\<close>

definition round_aspect :: "rat \<Rightarrow> (int \<Rightarrow> rat) \<Rightarrow> int" where
  "round_aspect number key =
     max (let f = \<lfloor>number\<rfloor>; c = \<lceil>number\<rceil> in if key c < key f then c else f) 1"

definition preserve_aspect_ratio :: "nat \<times> nat \<Rightarrow> nat \<times> nat \<Rightarrow> error + (nat \<times> nat) option" where
  "preserve_aspect_ratio box sz =
     (case (box, sz) of ((x, y), (w, h)) \<Rightarrow>
        if x \<ge> w \<and> y \<ge> h then Inr None
        else if h = 0 then Inl ZeroDivisionError
        else
          let aspect = rat_of_nat w / rat_of_nat h in
          if rat_of_nat x / rat_of_nat y \<ge> aspect
          then Inr (Some (nat (round_aspect (rat_of_nat y * aspect)
                                 (\<lambda>n. \<bar>aspect - rat_of_int n / rat_of_nat y\<bar>)), y))
          else Inr (Some (x, nat (round_aspect (rat_of_nat x / aspect)
                                 (\<lambda>n. if n = 0 then 0 else \<bar>aspect - rat_of_nat x / rat_of_int n\<bar>)))))"

definition thumbnail :: "imaging \<Rightarrow> nat \<times> nat \<Rightarrow> rgb raster \<Rightarrow> error + rgb raster" where
  "thumbnail L box im =
     (case preserve_aspect_ratio box (width im, height im) of
        Inl e \<Rightarrow> Inl e
      | Inr None \<Rightarrow> Inr im
      | Inr (Some final_size) \<Rightarrow>
          if (width im, height im) \<noteq> final_size
          then Inr \<lparr>width = fst final_size, height = snd final_size,
                    pixels = resample L final_size im\<rparr>
          else Inr im)"

text \<open>
  The array operations: conversion from and to images, clipping, element-wise maps. The
  conversion to 8 bits truncates towards zero; the source clips to the range 0 to 255
  before each conversion. The two arrays of an element-wise operation have the same
  shape in the source, since every filter keeps the size of its image.
\<close>

definition to_float :: "byte \<Rightarrow> rat" where
  "to_float v = rat_of_nat (unat v)"

definition asarray :: "byte raster \<Rightarrow> ndarray" where
  "asarray img = \<lparr>width = width img, height = height img, pixels = map to_float (pixels img)\<rparr>"

definition astype_uint8 :: "rat \<Rightarrow> byte" where
  "astype_uint8 v = word_of_int (if 0 \<le> v then \<lfloor>v\<rfloor> else \<lceil>v\<rceil>)"

definition fromarray :: "ndarray \<Rightarrow> byte raster" where
  "fromarray a = \<lparr>width = width a, height = height a, pixels = map astype_uint8 (pixels a)\<rparr>"

definition clip :: "rat \<Rightarrow> rat \<Rightarrow> rat \<Rightarrow> rat" where
  "clip v lo hi = min (max v lo) hi"

definition elementwise :: "(rat \<Rightarrow> rat \<Rightarrow> rat) \<Rightarrow> ndarray \<Rightarrow> ndarray \<Rightarrow> ndarray" where
  "elementwise f a b = a\<lparr>pixels := map2 f (pixels a) (pixels b)\<rparr>"

text \<open>
  \<open>np.percentile\<close> with linear interpolation between the two nearest order
  statistics. An empty array has no percentile (\<open>None\<close>).
\<close>

definition percentile :: "rat list \<Rightarrow> rat \<Rightarrow> rat option" where
  "percentile a q =
     (if a = [] then None
      else
        let s = sort a; n = length s;
            virtual_index = q / 100 * rat_of_nat (n - 1);
            previous = nat \<lfloor>virtual_index\<rfloor>;
            following = min (previous + 1) (n - 1);
            gamma = virtual_index - rat_of_int \<lfloor>virtual_index\<rfloor>
        in Some (s ! previous + (s ! following - s ! previous) * gamma))"

text \<open>
  The generator behind \<open>np.random.normal\<close> is the process-wide one: no argument of
  the renderer reaches it. Its state is the sequence of standard normal draws it will
  produce; a call consumes as many draws as it has samples to fill.
\<close>

type_synonym rng = "nat \<Rightarrow> rat"

definition advance :: "rng \<Rightarrow> nat \<Rightarrow> rng" where
  "advance g n = (\<lambda>i. g (i + n))"

definition random_normal :: "rng \<Rightarrow> rat \<Rightarrow> rat \<Rightarrow> nat \<Rightarrow> rat list \<times> rng" where
  "random_normal g loc scale n = (map (\<lambda>i. loc + scale * g i) [0..<n], advance g n)"

section \<open>The renderer\<close>

text \<open>Base grayscale: \<open>gray\<close>, lines 24 and 25.\<close>

definition gray_base :: "imaging \<Rightarrow> rgb raster \<Rightarrow> byte raster" where
  "gray_base L img = filter_image (autocontrast L 1) (grayscale img)"

text \<open>Dodge blend, lines 28 to 32.\<close>

definition dodge_denominator :: "rat \<Rightarrow> rat" where
  "dodge_denominator b = 255 - b + 1 / 10000"

definition dodge_px :: "rat \<Rightarrow> rat \<Rightarrow> rat" where
  "dodge_px g b = clip (g * 255 / dodge_denominator b) 0 255"

definition dodge_blurred :: "imaging \<Rightarrow> byte raster \<Rightarrow> byte raster" where
  "dodge_blurred L gray = filter_image (gaussian_blur L 22) (invert gray)"

definition dodge :: "imaging \<Rightarrow> byte raster \<Rightarrow> ndarray" where
  "dodge L gray = elementwise dodge_px (asarray gray) (asarray (dodge_blurred L gray))"

text \<open>Sharpening, lines 35 and 36.\<close>

definition sharp :: "imaging \<Rightarrow> byte raster \<Rightarrow> byte raster" where
  "sharp L gray = filter_image (unsharp_mask L 2 180 2) (fromarray (dodge L gray))"

text \<open>Paper grain, lines 39 to 47. The second component is the generator afterwards.\<close>

definition texture :: "imaging \<Rightarrow> rng \<Rightarrow> nat \<Rightarrow> nat \<Rightarrow> byte raster \<times> rng" where
  "texture L g w h =
     (case random_normal g 128 18 (h * w) of (samples, g') \<Rightarrow>
        (filter_image (gaussian_blur L (7 / 5))
           (fromarray \<lparr>width = w, height = h, pixels = map (\<lambda>v. clip v 0 255) samples\<rparr>), g'))"

definition blend_px :: "rat \<Rightarrow> rat \<Rightarrow> rat" where
  "blend_px s t = clip (85 / 100 * s + 15 / 100 * t) 0 255"

definition base_sketch :: "imaging \<Rightarrow> rng \<Rightarrow> byte raster \<Rightarrow> rgb raster \<times> rng" where
  "base_sketch L g gray =
     (let sh = sharp L gray in
      case texture L g (width sh) (height sh) of (tex, g') \<Rightarrow>
        (convert_rgb (fromarray (elementwise blend_px (asarray sh) (asarray tex))), g'))"

text \<open>The three styles, lines 50 to 80.\<close>

definition trace_edges :: "imaging \<Rightarrow> byte raster \<Rightarrow> ndarray" where
  "trace_edges L gray =
     (let base = filter_image (gaussian_blur L (8 / 5)) (filter_image (median_filter L 3) gray);
          edges = filter_image (autocontrast L 1) (filter_image (find_edges L) base)
      in asarray edges)"

definition trace_lines :: "ndarray \<Rightarrow> ndarray" where
  "trace_lines edges_arr =
     (let threshold = percentile (pixels edges_arr) 92;
          mask = map (\<lambda>e. case threshold of None \<Rightarrow> False | Some t \<Rightarrow> e \<ge> t) (pixels edges_arr)
      in edges_arr\<lparr>pixels := map (\<lambda>m. if m then 60 else 255) mask\<rparr>)"

definition trace_line_img :: "ndarray \<Rightarrow> byte raster" where
  "trace_line_img edges_arr = max_filter3 (fromarray (trace_lines edges_arr))"

definition style_trace :: "imaging \<Rightarrow> byte raster \<Rightarrow> rgb raster" where
  "style_trace L gray = convert_rgb (trace_line_img (trace_edges L gray))"

definition mix_px :: "rat \<Rightarrow> rat \<Rightarrow> rat" where
  "mix_px l s = clip (65 / 100 * l + 35 / 100 * s) 0 255"

definition style_artistic :: "imaging \<Rightarrow> byte raster \<Rightarrow> byte raster \<Rightarrow> rgb raster" where
  "style_artistic L gray luminance =
     (let strokes = filter_image (unsharp_mask L (6 / 5) 250 1)
                      (filter_image (autocontrast L 2) (filter_image (find_edges L) gray));
          mixed = elementwise mix_px (asarray luminance) (asarray strokes)
      in convert_rgb (filter_image (unsharp_mask L (3 / 2) 160 2) (fromarray mixed)))"

definition style_clean :: "imaging \<Rightarrow> byte raster \<Rightarrow> rgb raster" where
  "style_clean L luminance =
     convert_rgb (filter_image (unsharp_mask L (11 / 10) 140 2)
                    (filter_image (autocontrast L (1 / 2)) luminance))"

text \<open>
  The branch on the style. The \<open>trace\<close> branch also overwrites the depth selector
  (line 67): \<open>depth_after_style\<close> is the selector that reaches the depth stage.
\<close>

definition styled :: "imaging \<Rightarrow> string \<Rightarrow> byte raster \<Rightarrow> byte raster \<Rightarrow> rgb raster" where
  "styled L sketch_style gray luminance =
     (if sketch_style = ''trace'' then style_trace L gray
      else if sketch_style = ''artistic'' then style_artistic L gray luminance
      else style_clean L luminance)"

definition depth_after_style :: "string \<Rightarrow> string \<Rightarrow> string" where
  "depth_after_style sketch_style sketch_depth =
     (if sketch_style = ''trace'' then ''none'' else sketch_depth)"

text \<open>Sketch depth, lines 83 to 92.\<close>

definition shade_table :: "(string \<times> rat) list" where
  "shade_table = [(''none'', 0), (''light'', 22 / 100), (''medium'', 38 / 100), (''deep'', 55 / 100)]"

definition shade_strength :: "string \<Rightarrow> rat" where
  "shade_strength sketch_depth =
     (case map_of shade_table sketch_depth of Some s \<Rightarrow> s | None \<Rightarrow> 38 / 100)"

definition shade_px :: "rat \<Rightarrow> rat \<Rightarrow> rat \<Rightarrow> rat" where
  "shade_px s x t = clip ((1 - 35 / 100 * s) * x + s * t) 0 255"

definition tone :: "imaging \<Rightarrow> byte raster \<Rightarrow> byte raster" where
  "tone L gray = filter_image (autocontrast L 2) (filter_image (gaussian_blur L (16 / 5)) gray)"

definition shaded :: "imaging \<Rightarrow> rat \<Rightarrow> byte raster \<Rightarrow> rgb raster \<Rightarrow> ndarray" where
  "shaded L s gray sketch =
     elementwise (shade_px s) (asarray (grayscale sketch)) (asarray (tone L gray))"

definition shaded_img :: "imaging \<Rightarrow> rat \<Rightarrow> byte raster \<Rightarrow> rgb raster \<Rightarrow> byte raster" where
  "shaded_img L s gray sketch = fromarray (shaded L s gray sketch)"

definition depth_shade :: "imaging \<Rightarrow> string \<Rightarrow> byte raster \<Rightarrow> rgb raster \<Rightarrow> rgb raster" where
  "depth_shade L sketch_depth gray sketch =
     (let s = shade_strength sketch_depth in
      if s > 0
      then convert_rgb (filter_image (autocontrast L 1) (shaded_img L s gray sketch))
      else sketch)"

text \<open>Optional resizing, lines 95 to 98.\<close>

definition size_map :: "(string \<times> nat option) list" where
  "size_map = [(''orig'', None), (''lg'', Some 1600), (''md'', Some 1024), (''sm'', Some 720),
               (''xs'', Some 480)]"

definition target_max :: "string \<Rightarrow> nat option" where
  "target_max output_size = (case map_of size_map output_size of Some v \<Rightarrow> v | None \<Rightarrow> None)"

definition output_resize :: "imaging \<Rightarrow> string \<Rightarrow> rgb raster \<Rightarrow> error + rgb raster" where
  "output_resize L output_size sketch =
     (case target_max output_size of
        None \<Rightarrow> Inr sketch
      | Some t \<Rightarrow> if t \<noteq> 0 then thumbnail L (t, t) sketch else Inr sketch)"

text \<open>
  The stages after the image is decoded and capped to 1800 pixels (lines 24 to 100), and
  the whole function \<open>_pencil_sketch\<close>. The result pairs the image returned with the
  state in which the call leaves the generator.
\<close>

definition render :: "imaging \<Rightarrow> rng \<Rightarrow> rgb raster \<Rightarrow> string \<Rightarrow> string \<Rightarrow> string \<Rightarrow> error + rgb raster \<times> rng" where
  "render L g img sketch_style sketch_depth output_size =
     (let gray = gray_base L img;
          (base, g') = base_sketch L g gray;
          luminance = grayscale base;
          sketch = styled L sketch_style gray luminance;
          sketch_depth' = depth_after_style sketch_style sketch_depth
      in case output_resize L output_size (depth_shade L sketch_depth' gray sketch) of
           Inl e \<Rightarrow> Inl e
         | Inr out \<Rightarrow> Inr (out, g'))"

definition pencil_sketch :: "imaging \<Rightarrow> rng \<Rightarrow> byte list \<Rightarrow> string \<Rightarrow> string \<Rightarrow> string \<Rightarrow> error + rgb raster \<times> rng" where
  "pencil_sketch L g image_file sketch_style sketch_depth output_size =
     (case image_open L image_file of
        None \<Rightarrow> Inl DecodeError
      | Some opened \<Rightarrow>
          (case thumbnail L (1800, 1800) opened of
             Inl e \<Rightarrow> Inl e
           | Inr img \<Rightarrow> render L g img sketch_style sketch_depth output_size))"

text \<open>The sketch that reaches the optional resizing: the stages of lines 24 to 92.\<close>

definition final_sketch :: "imaging \<Rightarrow> rng \<Rightarrow> rgb raster \<Rightarrow> string \<Rightarrow> string \<Rightarrow> rgb raster" where
  "final_sketch L g img sketch_style sketch_depth =
     (let gray = gray_base L img in
      depth_shade L (depth_after_style sketch_style sketch_depth) gray
        (styled L sketch_style gray (grayscale (fst (base_sketch L g gray)))))"

section \<open>Sizes\<close>

text \<open>
  The size a thumbnail in a square box has, the cap that an output size selector stands
  for, and the aspect ratio kept to one pixel: with the long edge scaled exactly, the
  short edge of the output is at most one pixel off.
\<close>

definition fit :: "nat \<Rightarrow> nat \<times> nat \<Rightarrow> nat \<times> nat" where
  "fit b sz = (case preserve_aspect_ratio (b, b) sz of Inr (Some s) \<Rightarrow> s | _ \<Rightarrow> sz)"

definition size_cap :: "string \<Rightarrow> nat" where
  "size_cap output_size = (case target_max output_size of None \<Rightarrow> 1800 | Some t \<Rightarrow> t)"

definition aspect_kept :: "nat \<times> nat \<Rightarrow> nat \<times> nat \<Rightarrow> bool" where
  "aspect_kept sz out = (case (sz, out) of ((W, H), (w, h)) \<Rightarrow>
     \<bar>int w * int H - int h * int W\<bar> \<le> int (max W H))"

text \<open>
  The two ways \<open>round_aspect\<close> comes out, as relations between the exact quotient
  and the integer returned. With the key of the portrait branch the result is the nearest
  integer, at least 1. With the key of the landscape branch the choice between \<open>f\<close>
  and \<open>f + 1\<close> falls at their harmonic mean.
\<close>

definition near :: "rat \<Rightarrow> int \<Rightarrow> bool" where
  "near q r \<longleftrightarrow> 1 \<le> r \<and> (\<bar>rat_of_int r - q\<bar> \<le> 1 / 2 \<or> r = 1 \<and> q \<le> 1 / 2)"

definition harm :: "rat \<Rightarrow> int \<Rightarrow> bool" where
  "harm q r \<longleftrightarrow> 1 \<le> r \<and> 2 * rat_of_int r * (rat_of_int r - 1) < q * (2 * rat_of_int r - 1)
     \<and> q * (2 * rat_of_int r + 1) \<le> 2 * rat_of_int r * (rat_of_int r + 1)"

section \<open>Test inputs\<close>

text \<open>
  On an image of a single pixel every neighbourhood filter of the library returns the
  image it is given: a blur, a median and an unsharp mask of a constant image are that
  image, the 3 by 3 kernel is not applied to an image smaller than itself, a histogram
  with one value is not stretched. \<open>pixel_imaging\<close> is the library on such images.
  Its decoder reads the binary graymap file of one pixel, \<open>P5 1 1 255\<close> and the gray
  value, and rejects every other input, the empty one among them.
\<close>

definition px1 :: "byte \<Rightarrow> rgb raster" where
  "px1 v = \<lparr>width = 1, height = 1, pixels = [(v, v, v)]\<rparr>"

definition pgm_header :: "byte list" where
  "pgm_header = [80, 53, 10, 49, 32, 49, 10, 50, 53, 53, 10]"

definition gray_file :: "byte \<Rightarrow> byte list" where
  "gray_file v = pgm_header @ [v]"

definition pixel_imaging :: imaging where
  "pixel_imaging =
     \<lparr>image_open = (\<lambda>bs. if bs \<noteq> [] \<and> butlast bs = pgm_header then Some (px1 (last bs)) else None),
      resample = (\<lambda>sz im. replicate (fst sz * snd sz) (case pixels im of [] \<Rightarrow> (0, 0, 0) | p # _ \<Rightarrow> p)),
      gaussian_blur = (\<lambda>r w h px. px),
      unsharp_mask = (\<lambda>r p t w h px. px),
      median_filter = (\<lambda>s w h px. px),
      find_edges = (\<lambda>w h px. px),
      autocontrast = (\<lambda>c w h px. px)\<rparr>"

text \<open>
  A black image of 2000 by 1000 pixels, its binary graymap file
  (\<open>P5 2000 1000 255\<close> and the two million gray values), and a library whose decoder
  reads that file.
\<close>

definition photo :: "rgb raster" where
  "photo = \<lparr>width = 2000, height = 1000, pixels = replicate (2000 * 1000) (0, 0, 0)\<rparr>"

definition photo_file :: "byte list" where
  "photo_file = [80, 53, 10, 50, 48, 48, 48, 32, 49, 48, 48, 48, 10, 50, 53, 53, 10]
                  @ replicate (2000 * 1000) 0"

definition photo_imaging :: imaging where
  "photo_imaging = pixel_imaging\<lparr>image_open := (\<lambda>bs. if bs = photo_file then Some photo else None)\<rparr>"

text \<open>A generator whose first draw is 0 and whose later draws are \<open>-14/9\<close>.\<close>

definition draws :: rng where
  "draws = (\<lambda>i. if i = 0 then 0 else - 14 / 9)"

text \<open>A second generator: it agrees with \<open>draws\<close> on the first draw only.\<close>

definition draws_alt :: rng where
  "draws_alt = (\<lambda>i. if i = 0 then 0 else 3)"

text \<open>The image part of a result, and the number of draws a call takes from the generator.\<close>

definition image_of :: "error + rgb raster \<times> rng \<Rightarrow> error + rgb raster" where
  "image_of r = map_sum id fst r"

definition grain_count :: "imaging \<Rightarrow> byte list \<Rightarrow> nat" where
  "grain_count L image_file =
     (case image_open L image_file of
        None \<Rightarrow> 0
      | Some opened \<Rightarrow>
          (case thumbnail L (1800, 1800) opened of
             Inl e \<Rightarrow> 0
           | Inr img \<Rightarrow> height img * width img))"

text \<open>The mean absolute difference of two RGB images, over pixels and channels.\<close>

definition abs_diff :: "byte \<Rightarrow> byte \<Rightarrow> rat" where
  "abs_diff a b = \<bar>to_float a - to_float b\<bar>"








section \<open>Auxiliary facts\<close>

lemma floor_rat_divide_numeral [simp]:
  "\<lfloor>numeral a / numeral b :: rat\<rfloor> = numeral a div numeral b"
  using floor_divide_of_int_eq [of "numeral a" "numeral b", where ?'a = rat] by simp

lemma ceiling_rat_divide_numeral [simp]:
  "\<lceil>numeral a / numeral b :: rat\<rceil> = - (- numeral a div numeral b)"
  using ceiling_divide_eq_div [of "numeral a" "numeral b", where ?'a = rat] by simp

lemma luma_gray [simp]: "luma (v, v, v) = v"
proof -
  have "(unat v * 19595 + unat v * 38470 + unat v * 7471 + 32768) div 65536 = unat v"
    by (simp flip: distrib_right)
  then show ?thesis by (simp add: luma_def)
qed

lemma grayscale_convert_rgb [simp]: "grayscale (convert_rgb img) = img"
  by (simp add: grayscale_def convert_rgb_def comp_def)

lemmas pipeline_defs = pencil_sketch_def render_def styled_def depth_after_style_def
  pixel_imaging_def px1_def thumbnail_def preserve_aspect_ratio_def gray_base_def
  filter_image_def grayscale_def base_sketch_def sharp_def dodge_def dodge_blurred_def
  invert_def asarray_def fromarray_def elementwise_def dodge_px_def dodge_denominator_def
  clip_def texture_def random_normal_def blend_px_def convert_rgb_def style_clean_def
  depth_shade_def shade_strength_def shade_table_def output_resize_def target_max_def
  size_map_def astype_uint8_def draws_def image_of_def shaded_def shade_px_def tone_def advance_def
  to_float_def shaded_img_def gray_file_def

section \<open>Sizes through the stages\<close>

lemma filter_image_size [simp]:
  "width (filter_image f img) = width img" "height (filter_image f img) = height img"
  by (simp_all add: filter_image_def)

lemma grayscale_size [simp]:
  "width (grayscale img) = width img" "height (grayscale img) = height img"
  by (simp_all add: grayscale_def)

lemma convert_rgb_size [simp]:
  "width (convert_rgb img) = width img" "height (convert_rgb img) = height img"
  by (simp_all add: convert_rgb_def)

lemma fromarray_size [simp]:
  "width (fromarray a) = width a" "height (fromarray a) = height a"
  by (simp_all add: fromarray_def)

lemma asarray_size [simp]:
  "width (asarray img) = width img" "height (asarray img) = height img"
  by (simp_all add: asarray_def)

lemma elementwise_size [simp]:
  "width (elementwise f a b) = width a" "height (elementwise f a b) = height a"
  by (simp_all add: elementwise_def)

lemma max_filter3_size [simp]:
  "width (max_filter3 img) = width img" "height (max_filter3 img) = height img"
  by (simp_all add: max_filter3_def)

lemma trace_lines_size [simp]:
  "width (trace_lines a) = width a" "height (trace_lines a) = height a"
  by (simp_all add: trace_lines_def Let_def)

lemma sharp_size [simp]:
  "width (sharp L gray) = width gray" "height (sharp L gray) = height gray"
  by (simp_all add: sharp_def dodge_def)

lemma gray_base_size [simp]:
  "width (gray_base L img) = width img" "height (gray_base L img) = height img"
  by (simp_all add: gray_base_def)

lemma base_sketch_size [simp]:
  "width (fst (base_sketch L g gray)) = width gray"
  "height (fst (base_sketch L g gray)) = height gray"
  by (simp_all add: base_sketch_def Let_def split: prod.split)

lemma styled_size [simp]:
  assumes "width luminance = width gray" and "height luminance = height gray"
  shows "width (styled L sketch_style gray luminance) = width gray"
    and "height (styled L sketch_style gray luminance) = height gray"
  using assms
  by (simp_all add: styled_def style_trace_def trace_line_img_def trace_edges_def
      style_artistic_def style_clean_def Let_def)

lemma depth_shade_size [simp]:
  "width (depth_shade L d gray sketch) = width sketch"
  "height (depth_shade L d gray sketch) = height sketch"
  by (simp_all add: depth_shade_def shaded_img_def shaded_def Let_def)

lemma render_final_sketch:
  "render L g img sketch_style sketch_depth output_size =
     (case output_resize L output_size (final_sketch L g img sketch_style sketch_depth) of
        Inl e \<Rightarrow> Inl e
      | Inr out \<Rightarrow> Inr (out, snd (base_sketch L g (gray_base L img))))"
  by (simp add: render_def final_sketch_def Let_def case_prod_beta)

lemma final_sketch_size [simp]:
  "width (final_sketch L g img sketch_style sketch_depth) = width img"
  "height (final_sketch L g img sketch_style sketch_depth) = height img"
  by (simp_all add: final_sketch_def Let_def)





section \<open>Style dispatch\<close>

text \<open>
  C3. With the style \<open>trace\<close> the result of the renderer is the same for every two
  depth selectors: the branch overwrites the selector with \<open>none\<close>, whose strength
  is 0, and the depth stage hands the styled image on unchanged.
\<close>

theorem trace_ignores_depth:
  "pencil_sketch L g image_file ''trace'' d1 output_size
     = pencil_sketch L g image_file ''trace'' d2 output_size
   \<and> shade_strength (depth_after_style ''trace'' d1) = 0
   \<and> depth_shade L (depth_after_style ''trace'' d1) gray sketch = sketch"
  by (simp add: pencil_sketch_def render_def depth_after_style_def shade_strength_def
      shade_table_def depth_shade_def cong: option.case_cong sum.case_cong)

text \<open>
  C10. The dispatch has no rejecting branch: a style selector that is neither
  \<open>trace\<close> nor \<open>artistic\<close> is rendered by the \<open>clean\<close> branch, so the result is
  the result for the style \<open>clean\<close>.
\<close>

theorem unknown_style_renders_clean:
  assumes "sketch_style \<noteq> ''trace''" and "sketch_style \<noteq> ''artistic''"
  shows "pencil_sketch L g image_file sketch_style sketch_depth output_size
           = pencil_sketch L g image_file ''clean'' sketch_depth output_size"
proof -
  have "render L g img sketch_style sketch_depth output_size
          = render L g img ''clean'' sketch_depth output_size" for img
    using assms by (simp add: render_def styled_def depth_after_style_def)
  then show ?thesis
    by (simp add: pencil_sketch_def cong: option.case_cong sum.case_cong)
qed

theorem unknown_style_renders_clean_witness:
  "''sepia'' \<noteq> ''trace'' \<and> ''sepia'' \<noteq> ''artistic''
   \<and> pencil_sketch pixel_imaging draws (gray_file 83) ''sepia'' ''deep'' ''orig''
       = pencil_sketch pixel_imaging draws (gray_file 83) ''clean'' ''deep'' ''orig''"
  using unknown_style_renders_clean [where sketch_style = "''sepia''" and L = pixel_imaging
      and g = draws and image_file = "gray_file 83" and sketch_depth = "''deep''"
      and output_size = "''orig''"]
  by simp

section \<open>The trace style\<close>

text \<open>
  C7. The threshold is the 92nd percentile, a pixel at or above it becomes 60 and any
  other pixel 255. The maximum filter that follows takes the largest value of each
  window: on dark lines over a white ground it spreads the ground, not the lines.
  For the edge buffer \<open>[0, 255]\<close> of a two-pixel image (a black pixel beside a white
  one) the threshold is \<open>234.6\<close>, the line buffer is \<open>[255, 60]\<close>, and after the
  filter no line pixel is left.
\<close>

theorem trace_max_filter_removes_line:
  "percentile [0, 255] 92 = Some (1173 / 5)
   \<and> trace_lines \<lparr>width = 2, height = 1, pixels = [0, 255]\<rparr>
       = \<lparr>width = 2, height = 1, pixels = [255, 60]\<rparr>
   \<and> trace_line_img \<lparr>width = 2, height = 1, pixels = [0, 255]\<rparr>
       = \<lparr>width = 2, height = 1, pixels = [255, 255]\<rparr>"
  by code_simp

section \<open>Failure and totality\<close>



section \<open>Depth shading\<close>

lemma to_float_range: "0 \<le> to_float b" "to_float b \<le> 255"
proof -
  have "unat b < 2 ^ LENGTH(8)"
    by (rule unsigned_less)
  then have "unat b \<le> 255"
    by simp
  then have "rat_of_nat (unat b) \<le> rat_of_nat 255"
    by (rule of_nat_mono)
  then show "to_float b \<le> 255"
    by (simp only: to_float_def of_nat_numeral)
  show "0 \<le> to_float b"
    unfolding to_float_def by (rule of_nat_0_le_iff)
qed

lemma shade_strength_unknown:
  assumes "d \<notin> {''none'', ''light'', ''medium'', ''deep''}"
  shows "shade_strength d = 38 / 100"
  using assms by (simp add: shade_strength_def shade_table_def)


lemma pencil_sketch_depth_cong:
  assumes "shade_strength (depth_after_style sketch_style d1)
             = shade_strength (depth_after_style sketch_style d2)"
  shows "pencil_sketch L g image_file sketch_style d1 output_size
           = pencil_sketch L g image_file sketch_style d2 output_size"
proof -
  have "depth_shade L (depth_after_style sketch_style d1) gray sketch
          = depth_shade L (depth_after_style sketch_style d2) gray sketch" for gray sketch
    using assms by (simp add: depth_shade_def)
  then have "render L g img sketch_style d1 output_size
          = render L g img sketch_style d2 output_size" for img
    by (simp add: render_def)
  then show ?thesis
    by (simp add: pencil_sketch_def cong: option.case_cong sum.case_cong)
qed

text \<open>
  C9, as the claim states it: a depth selector outside the four known ones is said never
  to skip the depth stage. With the style \<open>trace\<close> the selector \<open>bogus\<close> reaches
  the depth stage as \<open>none\<close>: the strength is 0 and the stage returns the styled
  image as it is.
\<close>

theorem unknown_depth_trace_counterexample:
  "''bogus'' \<notin> {''none'', ''light'', ''medium'', ''deep''}
   \<and> shade_strength (depth_after_style ''trace'' ''bogus'') = 0
   \<and> depth_shade pixel_imaging (depth_after_style ''trace'' ''bogus'') (grayscale (px1 83)) (px1 60)
       = px1 60"
  by (simp add: depth_after_style_def shade_strength_def shade_table_def depth_shade_def)

text \<open>
  C9, amended. A depth selector outside \<open>none\<close>, \<open>light\<close>, \<open>medium\<close>,
  \<open>deep\<close> has the default strength 0.38 and the renderer returns what it returns for
  \<open>medium\<close>, a failure included. For a style other than \<open>trace\<close> the depth stage
  runs with that strength; for \<open>trace\<close> it is skipped, as for every selector.
\<close>

theorem unknown_depth_as_medium:
  assumes "d \<notin> {''none'', ''light'', ''medium'', ''deep''}"
  shows "shade_strength d = 38 / 100
     \<and> pencil_sketch L g image_file sketch_style d output_size
         = pencil_sketch L g image_file sketch_style ''medium'' output_size
     \<and> (sketch_style \<noteq> ''trace'' \<longrightarrow> shade_strength (depth_after_style sketch_style d) = 38 / 100)
     \<and> shade_strength (depth_after_style ''trace'' d) = 0"
proof -
  have s: "shade_strength d = 38 / 100"
    using assms by (rule shade_strength_unknown)
  have m: "shade_strength ''medium'' = 38 / 100"
    by (simp add: shade_strength_def shade_table_def)
  have "shade_strength (depth_after_style sketch_style d)
          = shade_strength (depth_after_style sketch_style ''medium'')"
    using s m by (simp add: depth_after_style_def)
  then have "pencil_sketch L g image_file sketch_style d output_size
         = pencil_sketch L g image_file sketch_style ''medium'' output_size"
    by (rule pencil_sketch_depth_cong)
  moreover have "shade_strength (depth_after_style ''trace'' d) = 0"
    by (simp add: depth_after_style_def shade_strength_def shade_table_def)
  ultimately show ?thesis
    using s by (simp add: depth_after_style_def)
qed

theorem unknown_depth_as_medium_witness:
  "''bogus'' \<notin> {''none'', ''light'', ''medium'', ''deep''}
   \<and> shade_strength ''bogus'' = 38 / 100
   \<and> pencil_sketch pixel_imaging draws (gray_file 83) ''clean'' ''bogus'' ''orig''
       = pencil_sketch pixel_imaging draws (gray_file 83) ''clean'' ''medium'' ''orig''
   \<and> ''clean'' \<noteq> ''trace''
   \<and> shade_strength (depth_after_style ''clean'' ''bogus'') = 38 / 100"
  using unknown_depth_as_medium [where d = "''bogus''" and L = pixel_imaging and g = draws
      and image_file = "gray_file 83" and sketch_style = "''clean''" and output_size = "''orig''"]
  by simp



section \<open>Dodge blend\<close>

text \<open>
  C5. The base grayscale is the stretched (cutoff 1) grayscale of the image. Every
  element of the dodge array is \<open>clip (g * 255 / (255 - b + 1/10000)) 0 255\<close> for the
  base grayscale \<open>g\<close> and the blur of radius 22 of its inversion \<open>b\<close>. For every
  8-bit \<open>b\<close> the denominator is positive, so no division by zero occurs, and every
  element lies between 0 and 255.
\<close>

theorem dodge_formula:
  "gray_base L img = filter_image (autocontrast L 1) (grayscale img)
   \<and> pixels (dodge L gray)
       = map2 (\<lambda>g b. clip (g * 255 / (255 - b + 1 / 10000)) 0 255)
           (map to_float (pixels gray))
           (map to_float (pixels (filter_image (gaussian_blur L 22) (invert gray))))
   \<and> (\<forall>b :: byte. 0 < dodge_denominator (to_float b)
         \<and> dodge_denominator (to_float b) = 255 - to_float b + 1 / 10000)
   \<and> (\<forall>p \<in> set (pixels (dodge L gray)). 0 \<le> p \<and> p \<le> 255)"
proof (intro conjI allI ballI)
  show "gray_base L img = filter_image (autocontrast L 1) (grayscale img)"
    by (simp add: gray_base_def)
  show "pixels (dodge L gray)
       = map2 (\<lambda>g b. clip (g * 255 / (255 - b + 1 / 10000)) 0 255)
           (map to_float (pixels gray))
           (map to_float (pixels (filter_image (gaussian_blur L 22) (invert gray))))"
    by (simp add: dodge_def dodge_blurred_def elementwise_def asarray_def dodge_px_def
        dodge_denominator_def)
next
  fix b :: byte
  show "0 < dodge_denominator (to_float b)"
    unfolding dodge_denominator_def using to_float_range [of b] by linarith
  show "dodge_denominator (to_float b) = 255 - to_float b + 1 / 10000"
    by (simp add: dodge_denominator_def)
next
  fix p assume "p \<in> set (pixels (dodge L gray))"
  then obtain g b where "p = dodge_px g b"
    by (auto simp: dodge_def elementwise_def)
  then show "0 \<le> p" and "p \<le> 255"
    by (simp_all add: dodge_px_def clip_def)
qed


theorem dodge_formula_witness:
  "pixels (dodge pixel_imaging (grayscale (px1 83))) = [clip (83 * 255 / (255 - 172 + 1 / 10000)) 0 255]
   \<and> clip (83 * 255 / (255 - 172 + 1 / 10000)) 0 255 \<in> set (pixels (dodge pixel_imaging (grayscale (px1 83))))
   \<and> 0 \<le> clip (83 * 255 / (255 - 172 + 1 / 10000)) 0 255
   \<and> clip (83 * 255 / (255 - 172 + 1 / 10000)) 0 255 \<le> 255"
proof -
  have p: "pixels (dodge pixel_imaging (grayscale (px1 83))) = [clip (83 * 255 / (255 - 172 + 1 / 10000)) 0 255]"
    by (simp add: dodge_def dodge_blurred_def elementwise_def asarray_def dodge_px_def
        dodge_denominator_def filter_image_def invert_def pixel_imaging_def grayscale_def px1_def
        to_float_def)
  then have "clip (83 * 255 / (255 - 172 + 1 / 10000)) 0 255 \<in> set (pixels (dodge pixel_imaging (grayscale (px1 83))))"
    by simp
  with p show ?thesis
    using dodge_formula [of pixel_imaging "px1 83" "grayscale (px1 83)"] by blast
qed

section \<open>Paper grain and reproducibility\<close>

text \<open>
  C1, as the claim states it: the renderer is said to take a seed and to return the same
  bytes for the same input. It takes the input, the style, the depth and the size, and
  nothing that reaches the generator. Two calls in a row on the same one-pixel input
  with the same parameters return different images: the first call leaves the generator
  one draw further, where the second call starts.
\<close>

theorem repeated_call_counterexample:
  "pencil_sketch pixel_imaging draws (gray_file 83) ''clean'' ''none'' ''orig''
     = Inr (px1 235, advance draws 1)
   \<and> pencil_sketch pixel_imaging (advance draws 1) (gray_file 83) ''clean'' ''none'' ''orig''
     = Inr (px1 230, advance (advance draws 1) 1)
   \<and> px1 235 \<noteq> px1 230"
  by (simp add: pipeline_defs)

lemma random_normal_draws:
  assumes "\<forall>i < n. g1 i = g2 i"
  shows "fst (random_normal g1 loc scale n) = fst (random_normal g2 loc scale n)"
  using assms by (simp add: random_normal_def)

lemma texture_draws:
  assumes "\<forall>i < h * w. g1 i = g2 i"
  shows "fst (texture L g1 w h) = fst (texture L g2 w h)"
  using random_normal_draws [OF assms, of 128 18]
  by (simp add: texture_def case_prod_beta)

lemma base_sketch_draws:
  assumes "\<forall>i < height gray * width gray. g1 i = g2 i"
  shows "fst (base_sketch L g1 gray) = fst (base_sketch L g2 gray)"
  using texture_draws [of "height gray" "width gray" g1 g2 L] assms
  by (simp add: base_sketch_def Let_def case_prod_beta)

lemma image_of_render:
  "image_of (render L g img sketch_style sketch_depth output_size)
     = output_resize L output_size (final_sketch L g img sketch_style sketch_depth)"
  by (simp add: render_final_sketch image_of_def split: sum.split)

text \<open>
  C1, amended. The grain is drawn from the process-wide generator, which no parameter
  seeds. Two calls on the same input with the same parameters return the same image
  whenever the generator gives both the same draws for the grain samples, one for each
  pixel of the image capped to 1800 pixels.
\<close>

theorem output_determined_by_draws:
  assumes "\<forall>i < grain_count L image_file. g1 i = g2 i"
  shows "image_of (pencil_sketch L g1 image_file sketch_style sketch_depth output_size)
           = image_of (pencil_sketch L g2 image_file sketch_style sketch_depth output_size)"
proof (cases "image_open L image_file")
  case None
  then show ?thesis by (simp add: pencil_sketch_def)
next
  case (Some opened)
  show ?thesis
  proof (cases "thumbnail L (1800, 1800) opened")
    case (Inl e)
    with Some show ?thesis by (simp add: pencil_sketch_def)
  next
    case (Inr img)
    with Some assms have "\<forall>i < height (gray_base L img) * width (gray_base L img). g1 i = g2 i"
      by (simp add: grain_count_def)
    then have "fst (base_sketch L g1 (gray_base L img)) = fst (base_sketch L g2 (gray_base L img))"
      by (rule base_sketch_draws)
    then have "final_sketch L g1 img sketch_style sketch_depth
                 = final_sketch L g2 img sketch_style sketch_depth"
      by (simp add: final_sketch_def)
    with Some Inr show ?thesis
      by (simp add: pencil_sketch_def image_of_render)
  qed
qed

theorem output_determined_by_draws_witness:
  "grain_count pixel_imaging (gray_file 83) = 1 \<and> draws 0 = draws_alt 0 \<and> draws 1 \<noteq> draws_alt 1
   \<and> image_of (pencil_sketch pixel_imaging draws (gray_file 83) ''clean'' ''deep'' ''orig'')
       = image_of (pencil_sketch pixel_imaging draws_alt (gray_file 83) ''clean'' ''deep'' ''orig'')"
proof -
  have c: "grain_count pixel_imaging (gray_file 83) = 1"
    by (simp add: grain_count_def pixel_imaging_def thumbnail_def preserve_aspect_ratio_def px1_def
        gray_file_def)
  then have a: "\<forall>i < grain_count pixel_imaging (gray_file 83). draws i = draws_alt i"
    by (simp add: draws_def draws_alt_def)
  have "draws 0 = draws_alt 0" and "draws 1 \<noteq> draws_alt 1"
    by (simp_all add: draws_def draws_alt_def)
  with c show ?thesis
    using output_determined_by_draws [OF a, of "''clean''" "''deep''" "''orig''"] by blast
qed

section \<open>Depth and deviation from the unshaded sketch\<close>












lemma abs_diff_self [simp]: "abs_diff a a = 0"
  by (simp add: abs_diff_def)








section \<open>Output size\<close>

lemma floor_ceiling_cases:
  fixes q :: rat
  obtains (whole) f where "\<lfloor>q\<rfloor> = f" and "\<lceil>q\<rceil> = f" and "q = rat_of_int f"
  | (frac) f where "\<lfloor>q\<rfloor> = f" and "\<lceil>q\<rceil> = f + 1" and "rat_of_int f < q" and "q < rat_of_int f + 1"
proof (cases "q = rat_of_int \<lfloor>q\<rfloor>")
  case True
  then have "\<lceil>q\<rceil> = \<lfloor>q\<rfloor>"
    by (metis ceiling_of_int)
  then show ?thesis
    using True by (rule whole [OF refl])
next
  case False
  have lo: "rat_of_int \<lfloor>q\<rfloor> < q"
    using False of_int_floor_le [of q] by linarith
  have hi: "q < rat_of_int \<lfloor>q\<rfloor> + 1"
    by linarith
  have "\<lceil>q\<rceil> = \<lfloor>q\<rfloor> + 1"
    by (rule ceiling_unique) (use lo hi in simp_all)
  then show ?thesis
    using lo hi by (rule frac [OF refl])
qed

lemma round_near:
  fixes a :: rat and y :: nat
  assumes "0 < a" and "0 < y"
  shows "near (rat_of_nat y * a) (round_aspect (rat_of_nat y * a) (\<lambda>n. \<bar>a - rat_of_int n / rat_of_nat y\<bar>))"
proof -
  define q where "q = rat_of_nat y * a"
  let ?key = "\<lambda>n. \<bar>a - rat_of_int n / rat_of_nat y\<bar>"
  have y: "0 < rat_of_nat y" using assms(2) by simp
  have q: "0 < q" using assms y by (simp add: q_def)
  have key: "?key n = \<bar>q - rat_of_int n\<bar> / rat_of_nat y" for n
  proof -
    have "a - rat_of_int n / rat_of_nat y = (q - rat_of_int n) / rat_of_nat y"
      using y by (simp add: field_simps q_def)
    then show ?thesis using y by simp
  qed
  have cmp: "?key n < ?key m \<longleftrightarrow> \<bar>q - rat_of_int n\<bar> < \<bar>q - rat_of_int m\<bar>" for n m
    unfolding key using y by (simp add: divide_less_cancel)
  have "near q (round_aspect q ?key)"
  proof (cases q rule: floor_ceiling_cases)
    case (whole f)
    then have "1 \<le> f" using q by simp
    then show ?thesis
      unfolding near_def round_aspect_def Let_def cmp whole(1,2) using whole(3) by simp
  next
    case (frac f)
    then have "0 \<le> f" using q by linarith
    then show ?thesis
      unfolding near_def round_aspect_def Let_def cmp frac(1,2) using frac(3,4)
      by (auto simp: max_def abs_if split: if_splits)
  qed
  then show ?thesis by (simp only: q_def)
qed


lemma round_harm:
  fixes a x :: rat
  assumes "0 < a" and "0 < x"
  shows "harm (x / a) (round_aspect (x / a) (\<lambda>n. if n = 0 then 0 else \<bar>a - x / rat_of_int n\<bar>))"
proof -
  define q where "q = x / a"
  let ?key = "\<lambda>n. if n = 0 then 0 else \<bar>a - x / rat_of_int n\<bar>"
  have q: "0 < q" using assms by (simp add: q_def)
  have x: "x = q * a" using assms by (simp add: q_def)
  have key0: "0 \<le> ?key n" for n by simp
  have below: "?key n = a * (q - rat_of_int n) / rat_of_int n" if "1 \<le> n" "rat_of_int n \<le> q" for n
  proof -
    have n: "0 < rat_of_int n" "n \<noteq> 0" using that by simp_all
    have e: "a - x / rat_of_int n = - (a * (q - rat_of_int n) / rat_of_int n)"
      using n by (simp add: x field_simps)
    have "0 \<le> a * (q - rat_of_int n)"
      using that assms by simp
    then have nn: "0 \<le> a * (q - rat_of_int n) / rat_of_int n"
      using n by simp
    show ?thesis
      by (simp only: n if_False e abs_minus_cancel abs_of_nonneg [OF nn])
  qed
  have above: "?key n = a * (rat_of_int n - q) / rat_of_int n" if "1 \<le> n" "q \<le> rat_of_int n" for n
  proof -
    have n: "0 < rat_of_int n" "n \<noteq> 0" using that by simp_all
    have e: "a - x / rat_of_int n = a * (rat_of_int n - q) / rat_of_int n"
      using n by (simp add: x field_simps)
    have "0 \<le> a * (rat_of_int n - q)"
      using that assms by simp
    then have nn: "0 \<le> a * (rat_of_int n - q) / rat_of_int n"
      using n by simp
    show ?thesis
      by (simp only: n if_False e abs_of_nonneg [OF nn])
  qed
  have "harm q (round_aspect q ?key)"
  proof (cases q rule: floor_ceiling_cases)
    case (whole f)
    then have f: "1 \<le> f" using q by simp
    have "round_aspect q ?key = f"
      unfolding round_aspect_def Let_def whole(1,2) using f by simp
    moreover have "harm q f"
      unfolding harm_def whole(3) using f by (simp add: algebra_simps)
    ultimately show ?thesis by simp
  next
    case (frac f)
    then have f0: "0 \<le> f" using q by linarith
    show ?thesis
    proof (cases "f = 0")
      case True
      have "round_aspect q ?key = 1"
        unfolding round_aspect_def Let_def frac(1,2) using True key0 [of 1] by simp
      moreover have "harm q 1"
        unfolding harm_def using frac(3,4) True by simp
      ultimately show ?thesis by simp
    next
      case False
      then have f: "1 \<le> f" using f0 by simp
      let ?f = "rat_of_int f"
      have fp: "0 < ?f" "1 \<le> ?f" using f by simp_all
      have kf: "?key f = a * (q - ?f) / ?f"
        using f frac(3) by (intro below) simp_all
      have kc: "?key (f + 1) = a * (?f + 1 - q) / (?f + 1)"
        using above [of "f + 1"] f frac(4) by simp
      have cmp: "?key (f + 1) < ?key f \<longleftrightarrow> 2 * ?f * (?f + 1) < q * (2 * ?f + 1)"
      proof -
        have "?key (f + 1) < ?key f \<longleftrightarrow> (?f + 1 - q) / (?f + 1) < (q - ?f) / ?f"
          unfolding kf kc using assms(1) by (simp add: mult_less_cancel_left_pos flip: times_divide_eq_right)
        also have "\<dots> \<longleftrightarrow> (?f + 1 - q) * ?f < (q - ?f) * (?f + 1)"
          using fp by (simp add: field_simps)
        also have "\<dots> \<longleftrightarrow> 2 * ?f * (?f + 1) < q * (2 * ?f + 1)"
          by (simp add: algebra_simps)
        finally show ?thesis .
      qed
      show ?thesis
      proof (cases "2 * ?f * (?f + 1) < q * (2 * ?f + 1)")
        case True
        have r: "round_aspect q ?key = f + 1"
          unfolding round_aspect_def Let_def frac(1,2) using cmp True f by simp
        have "q * (2 * ?f + 3) < (?f + 1) * (2 * ?f + 3)"
          using frac(4) fp by (intro mult_strict_right_mono) simp_all
        also have "\<dots> \<le> 2 * (?f + 1) * (?f + 2)"
          using fp by (simp add: algebra_simps)
        finally have "q * (2 * (?f + 1) + 1) \<le> 2 * (?f + 1) * (?f + 1 + 1)"
          by (simp add: algebra_simps)
        moreover have "2 * (?f + 1) * (?f + 1 - 1) < q * (2 * (?f + 1) - 1)"
          using True by (simp add: algebra_simps)
        ultimately have "harm q (f + 1)"
          unfolding harm_def using f by simp
        with r show ?thesis by simp
      next
        case False
        have r: "round_aspect q ?key = f"
          unfolding round_aspect_def Let_def frac(1,2) using cmp False f by simp
        have "2 * ?f * (?f - 1) \<le> ?f * (2 * ?f - 1)"
          using fp by (simp add: algebra_simps)
        also have "\<dots> < q * (2 * ?f - 1)"
          using frac(3) fp by (intro mult_strict_right_mono) simp_all
        finally have "harm q f"
          unfolding harm_def using f False by simp
        with r show ?thesis by simp
      qed
    qed
  qed
  then show ?thesis by (simp only: q_def)
qed

lemma near_cases:
  assumes "near q r"
  obtains (half) "1 \<le> r" "rat_of_int r - q \<le> 1 / 2" "q - rat_of_int r \<le> 1 / 2"
  | (one) "r = 1" "q \<le> 1 / 2"
  using assms unfolding near_def abs_le_iff by auto

lemma int_le_from_rat:
  assumes "rat_of_int r < rat_of_int B + 1"
  shows "r \<le> B"
proof -
  have "rat_of_int r < rat_of_int (B + 1)" using assms by simp
  then have "r < B + 1" by (simp only: of_int_less_iff)
  then show ?thesis by simp
qed

lemma near_bound:
  assumes "near q r" and "q \<le> rat_of_int B" and "1 \<le> B"
  shows "r \<le> B"
  using assms(1)
proof (cases rule: near_cases)
  case half
  then have "rat_of_int r < rat_of_int B + 1" using assms(2) by linarith
  then show ?thesis by (rule int_le_from_rat)
next
  case one
  then show ?thesis using assms(3) by simp
qed

lemma harm_bound:
  assumes "harm q r" and "q \<le> rat_of_int B" and "1 \<le> B"
  shows "r \<le> B"
proof (rule ccontr)
  let ?r = "rat_of_int r" and ?B = "rat_of_int B"
  assume "\<not> r \<le> B"
  then have "B + 1 \<le> r" by simp
  then have "rat_of_int (B + 1) \<le> ?r" by (simp only: of_int_le_iff)
  then have B: "?B \<le> ?r - 1" by simp
  have r: "1 \<le> ?r" using assms(1) by (simp add: harm_def)
  have "2 * ?r * (?r - 1) < q * (2 * ?r - 1)"
    using assms(1) by (simp add: harm_def)
  also have "\<dots> \<le> ?B * (2 * ?r - 1)"
    using assms(2) r by (intro mult_right_mono) simp_all
  also have "\<dots> \<le> (?r - 1) * (2 * ?r - 1)"
    using B r by (intro mult_right_mono) simp_all
  finally have "2 * ?r * (?r - 1) < (?r - 1) * (2 * ?r - 1)" .
  then have "?r < 1" by (simp add: algebra_simps)
  then show False using r by simp
qed

lemma near_err:
  assumes "near q r" and "0 < q"
  shows "\<bar>rat_of_int r - q\<bar> \<le> 1"
  using assms(1)
proof (cases rule: near_cases)
  case half
  then show ?thesis unfolding abs_le_iff by linarith
next
  case one
  then show ?thesis unfolding abs_le_iff using assms(2) by simp
qed

lemma harm_err:
  assumes "harm q r"
  shows "\<bar>rat_of_int r - q\<bar> \<le> 1"
proof -
  let ?r = "rat_of_int r"
  have r: "1 \<le> ?r" using assms by (simp add: harm_def)
  have "(?r - 1) * (2 * ?r - 1) \<le> 2 * ?r * (?r - 1)"
    using r by (simp add: algebra_simps)
  also have "\<dots> < q * (2 * ?r - 1)"
    using assms by (simp add: harm_def)
  finally have "(?r - 1) * (2 * ?r - 1) < q * (2 * ?r - 1)" .
  moreover have "0 < 2 * ?r - 1" using r by simp
  ultimately have lo: "?r - 1 < q"
    by (simp only: mult_less_cancel_right_pos)
  have "q * (2 * ?r + 1) \<le> 2 * ?r * (?r + 1)"
    using assms by (simp add: harm_def)
  also have "\<dots> \<le> (?r + 1) * (2 * ?r + 1)"
    using r by (simp add: algebra_simps)
  finally have "q * (2 * ?r + 1) \<le> (?r + 1) * (2 * ?r + 1)" .
  moreover have "0 < 2 * ?r + 1" using r by simp
  ultimately have "q \<le> ?r + 1"
    by (simp only: mult_le_cancel_right_pos)
  with lo show ?thesis unfolding abs_le_iff by linarith
qed

lemma near_near:
  assumes "near q r1" and "near (c * rat_of_int r1) r2" and "0 < q" and "0 < c" and "c < 1"
  shows "\<bar>rat_of_int r2 - c * q\<bar> \<le> 1"
proof -
  define p where "p = c * q"
  define s where "s = c * rat_of_int r1"
  have p: "0 < p" using assms by (simp add: p_def)
  have n2: "near s r2" using assms(2) by (simp add: s_def)
  have "\<bar>rat_of_int r2 - p\<bar> \<le> 1"
    using assms(1)
  proof (cases rule: near_cases)
    case half
    have e: "s - p = c * (rat_of_int r1 - q)" "p - s = c * (q - rat_of_int r1)"
      by (simp_all add: s_def p_def algebra_simps)
    have m: "c * (rat_of_int r1 - q) \<le> c * (1 / 2)" "c * (q - rat_of_int r1) \<le> c * (1 / 2)"
      by (rule mult_left_mono [OF half(2) less_imp_le [OF assms(4)]],
          rule mult_left_mono [OF half(3) less_imp_le [OF assms(4)]])
    have ch: "c * (1 / 2) < 1 / 2"
      using assms(5) by simp
    have sp: "s - p < 1 / 2" "p - s < 1 / 2"
      unfolding e by (rule le_less_trans [OF m(1) ch], rule le_less_trans [OF m(2) ch])
    from n2 show ?thesis
    proof (cases rule: near_cases)
      case half
      then show ?thesis unfolding abs_le_iff using sp by linarith
    next
      case one
      then show ?thesis unfolding abs_le_iff using sp p by simp
    qed
  next
    case one
    have "p \<le> c * (1 / 2)"
      unfolding p_def by (rule mult_left_mono [OF one(2) less_imp_le [OF assms(4)]])
    moreover have "c * (1 / 2) < 1 / 2"
      using assms(5) by simp
    ultimately have p2: "p < 1 / 2"
      by (rule le_less_trans)
    have s: "s = c" using one by (simp add: s_def)
    have "r2 = 1"
      using n2
    proof (cases rule: near_cases)
      case half
      then have "rat_of_int r2 < rat_of_int 1 + 1" using s assms(5) by simp
      then have "r2 \<le> 1" by (rule int_le_from_rat)
      with half show ?thesis by simp
    next
      case one
      then show ?thesis by simp
    qed
    then show ?thesis unfolding abs_le_iff using p p2 by simp
  qed
  then show ?thesis by (simp only: p_def)
qed

lemma cap_ratio_cases:
  fixes b c :: rat
  assumes "2 * (b - 1) < c * (2 * b - 1)" and "2 \<le> b"
    and "c = 8 / 9 \<or> c = 128 / 225 \<or> c = 2 / 5 \<or> c = 4 / 15"
  shows "c = 8 / 9 \<and> b < 5"
proof -
  have "\<not> 2 * (b - 1) < 128 / 225 * (2 * b - 1)" using assms(2) by simp
  moreover have "\<not> 2 * (b - 1) < 2 / 5 * (2 * b - 1)" using assms(2) by simp
  moreover have "\<not> 2 * (b - 1) < 4 / 15 * (2 * b - 1)" using assms(2) by simp
  ultimately have c: "c = 8 / 9" using assms(1,3) by blast
  have "2 * (b - 1) < 8 / 9 * (2 * b - 1)"
    using assms(1) unfolding c .
  then have "b < 5" by simp
  with c show ?thesis by simp
qed

lemma harm_low_equal:
  fixes b q :: rat
  assumes "2 * b * (b - 1) < q * (2 * b - 1)" and "2 \<le> b" and "b \<le> 4"
  shows "b - 1 < 8 / 9 * q"
proof -
  have "0 \<le> (b - 1) * (9 - 2 * b)"
    using assms(2,3) by (intro mult_nonneg_nonneg) simp_all
  then have "9 * ((b - 1) * (2 * b - 1)) \<le> 8 * (2 * b * (b - 1))"
    by (simp add: algebra_simps)
  also have "\<dots> < 8 * (q * (2 * b - 1))"
    by (rule mult_strict_left_mono [OF assms(1)]) simp
  finally have "(9 * (b - 1)) * (2 * b - 1) < (8 * q) * (2 * b - 1)"
    by (simp only: mult.assoc)
  moreover have "0 < 2 * b - 1" using assms(2) by simp
  ultimately have "9 * (b - 1) < 8 * q" by (simp only: mult_less_cancel_right_pos)
  then show ?thesis by simp
qed

lemma harm_low_less:
  fixes a b c q :: rat
  assumes A1: "2 * a * (a - 1) < q * (2 * a - 1)" and B1: "2 * b * (b - 1) < c * a * (2 * b - 1)"
    and ab: "b + 1 \<le> a" and b2: "2 \<le> b" and c: "0 < c"
  shows "b - 1 < c * q"
proof -
  have pa: "0 < 2 * a - 1" and pb: "0 < 2 * b - 1" and a1: "0 < 2 * (a - 1)"
    using ab b2 by simp_all
  have "0 \<le> (b - 1) * (2 * a - 2 * b - 1)"
    using ab b2 by (intro mult_nonneg_nonneg) simp_all
  then have "(b - 1) * ((2 * a - 1) * (2 * b - 1)) \<le> 2 * (a - 1) * (2 * b * (b - 1))"
    by (simp add: algebra_simps)
  also have "\<dots> < 2 * (a - 1) * (c * a * (2 * b - 1))"
    by (rule mult_strict_left_mono [OF B1 a1])
  also have "\<dots> = (c * (2 * b - 1)) * (2 * a * (a - 1))"
    by (simp add: algebra_simps)
  also have "\<dots> < (c * (2 * b - 1)) * (q * (2 * a - 1))"
    by (rule mult_strict_left_mono [OF A1]) (use c pb in simp)
  also have "\<dots> = (c * q) * ((2 * a - 1) * (2 * b - 1))"
    by (simp add: algebra_simps)
  finally have "(b - 1) * ((2 * a - 1) * (2 * b - 1)) < (c * q) * ((2 * a - 1) * (2 * b - 1))" .
  moreover have "0 < (2 * a - 1) * (2 * b - 1)" using pa pb by simp
  ultimately show ?thesis by (simp only: mult_less_cancel_right_pos)
qed

lemma harm_half:
  assumes "harm q r"
  shows "q < rat_of_int r + 1 / 2"
proof -
  let ?r = "rat_of_int r"
  have r: "1 \<le> ?r" using assms by (simp add: harm_def)
  have "q * (2 * ?r + 1) \<le> 2 * ?r * (?r + 1)"
    using assms by (simp add: harm_def)
  also have "\<dots> < (?r + 1 / 2) * (2 * ?r + 1)"
    by (simp add: algebra_simps)
  finally have "q * (2 * ?r + 1) < (?r + 1 / 2) * (2 * ?r + 1)" .
  moreover have "0 < 2 * ?r + 1" using r by simp
  ultimately show ?thesis by (simp only: mult_less_cancel_right_pos)
qed

lemma harm_harm:
  assumes "harm q r1" and "harm (c * rat_of_int r1) r2" and "0 < q"
    and "c = 8 / 9 \<or> c = 128 / 225 \<or> c = 2 / 5 \<or> c = 4 / 15"
  shows "\<bar>rat_of_int r2 - c * q\<bar> \<le> 1"
proof -
  define a where "a = rat_of_int r1"
  define b where "b = rat_of_int r2"
  have c: "0 < c" "c < 1" using assms(4) by auto
  have a: "1 \<le> a" and b: "1 \<le> b"
    using assms(1,2) by (simp_all add: harm_def a_def b_def)
  have p: "0 < c * q" using assms(3) c by simp
  have A1: "2 * a * (a - 1) < q * (2 * a - 1)"
    using assms(1) by (simp add: harm_def a_def)
  have B1: "2 * b * (b - 1) < c * a * (2 * b - 1)"
    using assms(2) by (simp add: harm_def a_def b_def)
  have hs: "harm (c * a) r2" using assms(2) by (simp add: a_def)
  \<comment> \<open>the result is not more than one above\<close>
  have "q < a + 1 / 2"
    using harm_half [OF assms(1)] by (simp add: a_def)
  then have "c * q < c * (a + 1 / 2)"
    by (rule mult_strict_left_mono) (rule c)
  also have "\<dots> = c * a + c * (1 / 2)"
    by (simp add: algebra_simps)
  finally have 1: "c * q < c * a + c * (1 / 2)" .
  have 2: "c * (1 / 2) < 1 / 2" using c by simp
  have 3: "c * a < b + 1 / 2"
    using harm_half [OF hs] by (simp add: b_def)
  have up: "c * q - b \<le> 1"
    using 1 2 3 by linarith
  \<comment> \<open>nor more than one below\<close>
  have "c * a \<le> 1 * a"
    by (rule mult_right_mono) (use c a in simp_all)
  then have "c * a \<le> rat_of_int r1" by (simp add: a_def)
  then have "r2 \<le> r1"
    using a by (intro harm_bound [OF hs]) (simp_all add: a_def)
  have low: "b - c * q \<le> 1"
  proof (cases "r2 = 1")
    case True
    then show ?thesis using p by (simp add: b_def)
  next
    case False
    then have r2: "2 \<le> r2" using b by (simp add: b_def)
    then have "rat_of_int 2 \<le> rat_of_int r2" by (simp only: of_int_le_iff)
    then have b2: "2 \<le> b" by (simp add: b_def)
    show ?thesis
    proof (cases "r2 = r1")
      case True
      then have ab: "a = b" by (simp add: a_def b_def)
      have "b * (2 * (b - 1)) < b * (c * (2 * b - 1))"
        using B1 unfolding ab by (simp add: algebra_simps)
      moreover have "0 < b" using b2 by simp
      ultimately have "2 * (b - 1) < c * (2 * b - 1)"
        by (simp only: mult_less_cancel_left_pos)
      then have cb: "c = 8 / 9 \<and> b < 5"
        using b2 assms(4) by (rule cap_ratio_cases)
      then have "rat_of_int r2 < rat_of_int 4 + 1" by (simp add: b_def)
      then have "r2 \<le> 4" by (rule int_le_from_rat)
      then have "rat_of_int r2 \<le> rat_of_int 4" by (simp only: of_int_le_iff)
      then have b4: "b \<le> 4" by (simp add: b_def)
      have "2 * b * (b - 1) < q * (2 * b - 1)"
        using A1 unfolding ab .
      then have "b - 1 < 8 / 9 * q"
        using b2 b4 by (rule harm_low_equal)
      moreover have "c = 8 / 9" using cb by (rule conjunct1)
      ultimately have "b - 1 < c * q" by (simp only:)
      then show ?thesis by simp
    next
      case False
      with \<open>r2 \<le> r1\<close> have "r2 + 1 \<le> r1" by simp
      then have "rat_of_int (r2 + 1) \<le> rat_of_int r1" by (simp only: of_int_le_iff)
      then have ab: "b + 1 \<le> a" by (simp add: a_def b_def)
      have "b - 1 < c * q"
        using A1 B1 ab b2 c(1) by (rule harm_low_less)
      then show ?thesis by simp
    qed
  qed
  from up low have "\<bar>b - c * q\<bar> \<le> 1" unfolding abs_le_iff by linarith
  then show ?thesis by (simp only: b_def)
qed

lemma thumbnail_fit:
  assumes "0 < height im"
  shows "\<exists>im'. thumbnail L (b, b) im = Inr im'
           \<and> (width im', height im') = fit b (width im, height im)"
  using assms by (auto simp: thumbnail_def fit_def preserve_aspect_ratio_def Let_def)

lemma fit_char:
  assumes "0 < w" and "0 < h" and "0 < b"
  shows "(w \<le> b \<and> h \<le> b \<and> fit b (w, h) = (w, h))
     \<or> (w \<le> h \<and> b < h
          \<and> (\<exists>r. near (rat_of_nat b * (rat_of_nat w / rat_of_nat h)) r \<and> fit b (w, h) = (nat r, b)))
     \<or> (h < w \<and> b < w
          \<and> (\<exists>r. harm (rat_of_nat b / (rat_of_nat w / rat_of_nat h)) r \<and> fit b (w, h) = (b, nat r)))"
proof -
  let ?a = "rat_of_nat w / rat_of_nat h"
  have a: "0 < ?a" using assms by simp
  have box: "rat_of_nat b / rat_of_nat b = 1" using assms by simp
  have le: "?a \<le> 1 \<longleftrightarrow> w \<le> h" using assms by (simp add: divide_le_eq)
  consider (fits) "w \<le> b" "h \<le> b" | (tall) "\<not> (w \<le> b \<and> h \<le> b)" "w \<le> h"
    | (wide) "\<not> (w \<le> b \<and> h \<le> b)" "h < w"
    by linarith
  then show ?thesis
  proof cases
    case fits
    then show ?thesis by (simp add: fit_def preserve_aspect_ratio_def)
  next
    case tall
    then have nf: "(w \<le> b \<and> h \<le> b) = False" by simp
    from tall have "b < h" by linarith
    moreover have "near (rat_of_nat b * ?a)
        (round_aspect (rat_of_nat b * ?a) (\<lambda>n. \<bar>?a - rat_of_int n / rat_of_nat b\<bar>))"
      using a assms(3) by (rule round_near)
    moreover have "fit b (w, h) =
        (nat (round_aspect (rat_of_nat b * ?a) (\<lambda>n. \<bar>?a - rat_of_int n / rat_of_nat b\<bar>)), b)"
      using tall(2) assms by (simp add: fit_def preserve_aspect_ratio_def Let_def box le nf)
    ultimately show ?thesis using tall by blast
  next
    case wide
    then have nf: "(w \<le> b \<and> h \<le> b) = False" by simp
    from wide have "b < w" by linarith
    moreover have "harm (rat_of_nat b / ?a)
        (round_aspect (rat_of_nat b / ?a)
           (\<lambda>n. if n = 0 then 0 else \<bar>?a - rat_of_nat b / rat_of_int n\<bar>))"
      using a by (rule round_harm) (use assms in simp)
    moreover have "fit b (w, h) =
        (b, nat (round_aspect (rat_of_nat b / ?a)
           (\<lambda>n. if n = 0 then 0 else \<bar>?a - rat_of_nat b / rat_of_int n\<bar>)))"
      using wide(2) assms by (simp add: fit_def preserve_aspect_ratio_def Let_def box le nf)
    ultimately show ?thesis using wide by blast
  qed
qed

lemma scale_err:
  assumes "0 < D" and "\<bar>rat_of_int r - rat_of_nat n / rat_of_nat D\<bar> \<le> 1"
  shows "\<bar>r * int D - int n\<bar> \<le> int D"
proof -
  let ?D = "rat_of_nat D"
  have D: "0 < ?D" using assms(1) by simp
  have "rat_of_int r * ?D - rat_of_nat n = (rat_of_int r - rat_of_nat n / ?D) * ?D"
    using D by (simp add: field_simps)
  then have "\<bar>rat_of_int r * ?D - rat_of_nat n\<bar> = \<bar>rat_of_int r - rat_of_nat n / ?D\<bar> * ?D"
    using D by (simp add: abs_mult)
  also have "\<dots> \<le> 1 * ?D"
    using assms(2) D by (intro mult_right_mono) simp_all
  finally have "\<bar>rat_of_int (r * int D - int n)\<bar> \<le> rat_of_int (int D)"
    by simp
  then have "rat_of_int \<bar>r * int D - int n\<bar> \<le> rat_of_int (int D)"
    by (simp only: of_int_abs)
  then show ?thesis by (simp only: of_int_le_iff)
qed

lemma fit_step:
  assumes "0 < w" and "0 < h" and "0 < b"
  obtains (same) "w \<le> b" "h \<le> b" "fit b (w, h) = (w, h)"
  | (tall) r where "w \<le> h" "b < h" "1 \<le> r" "r \<le> int b" "r \<le> int w"
      "near (rat_of_nat (b * w) / rat_of_nat h) r" "fit b (w, h) = (nat r, b)"
  | (wide) r where "h < w" "b < w" "1 \<le> r" "r \<le> int b" "r \<le> int h"
      "harm (rat_of_nat (b * h) / rat_of_nat w) r" "fit b (w, h) = (b, nat r)"
proof -
  have pos: "0 < rat_of_nat w" "0 < rat_of_nat h" "0 < rat_of_nat b"
    using assms by simp_all
  from fit_char [OF assms] consider
    (a) "w \<le> b" "h \<le> b" "fit b (w, h) = (w, h)"
    | (b) r where "w \<le> h" "b < h" "near (rat_of_nat b * (rat_of_nat w / rat_of_nat h)) r"
        "fit b (w, h) = (nat r, b)"
    | (c) r where "h < w" "b < w" "harm (rat_of_nat b / (rat_of_nat w / rat_of_nat h)) r"
        "fit b (w, h) = (b, nat r)"
    by blast
  then show ?thesis
  proof cases
    case a
    then show ?thesis by (rule same)
  next
    case (b r)
    let ?q = "rat_of_nat (b * w) / rat_of_nat h"
    have n: "near ?q r" using b(3) by simp
    have "rat_of_nat (b * w) \<le> rat_of_nat (b * h)" "rat_of_nat (b * w) \<le> rat_of_nat (w * h)"
      using b(1,2) by (simp_all only: of_nat_le_iff) (simp_all add: mult.commute)
    then have "?q \<le> rat_of_int (int b)" "?q \<le> rat_of_int (int w)"
      using pos by (simp_all add: divide_le_eq)
    then have "r \<le> int b" "r \<le> int w"
      using assms by (auto intro: near_bound [OF n])
    moreover have "1 \<le> r" using n by (simp add: near_def)
    ultimately show ?thesis using b n by (intro tall [of r]) simp_all
  next
    case (c r)
    let ?q = "rat_of_nat (b * h) / rat_of_nat w"
    have n: "harm ?q r" using c(3) by simp
    have "rat_of_nat (b * h) \<le> rat_of_nat (b * w)" "rat_of_nat (b * h) \<le> rat_of_nat (h * w)"
      using c(1,2) by (simp_all only: of_nat_le_iff) (simp_all add: mult.commute)
    then have "?q \<le> rat_of_int (int b)" "?q \<le> rat_of_int (int h)"
      using pos by (simp_all add: divide_le_eq)
    then have "r \<le> int b" "r \<le> int h"
      using assms by (auto intro: harm_bound [OF n])
    moreover have "1 \<le> r" using n by (simp add: harm_def)
    ultimately show ?thesis using c n by (intro wide [of r]) simp_all
  qed
qed

lemma one_step:
  assumes "0 < W" and "0 < H" and "0 < b" and "fit b (W, H) = (w, h)"
  shows "0 < w \<and> 0 < h \<and> w \<le> b \<and> h \<le> b \<and> w \<le> W \<and> h \<le> H
     \<and> aspect_kept (W, H) (w, h) \<and> (W \<le> b \<and> H \<le> b \<longrightarrow> (w, h) = (W, H))"
  using assms(1-3)
proof (cases rule: fit_step)
  case same
  then show ?thesis using assms by (simp add: aspect_kept_def mult.commute)
next
  case (tall r)
  have wh: "w = nat r" "h = b" using tall(7) assms(4) by simp_all
  have "\<bar>rat_of_int r - rat_of_nat (b * W) / rat_of_nat H\<bar> \<le> 1"
    using tall(6) by (rule near_err) (use assms in simp)
  then have "\<bar>r * int H - int (b * W)\<bar> \<le> int H"
    using assms(2) by (intro scale_err)
  then have "aspect_kept (W, H) (w, h)"
    using tall(1,3) by (simp add: aspect_kept_def wh max_def)
  then show ?thesis using tall assms(1-3) by (simp add: wh) linarith
next
  case (wide r)
  have wh: "w = b" "h = nat r" using wide(7) assms(4) by simp_all
  have "\<bar>rat_of_int r - rat_of_nat (b * H) / rat_of_nat W\<bar> \<le> 1"
    using wide(6) by (rule harm_err)
  then have "\<bar>r * int W - int (b * H)\<bar> \<le> int W"
    using assms(1) by (intro scale_err)
  then have "aspect_kept (W, H) (w, h)"
    using wide(1,3) by (simp add: aspect_kept_def wh max_def abs_minus_commute)
  then show ?thesis using wide assms(1-3) by (simp add: wh) linarith
qed

lemma two_step:
  assumes "0 < W" and "0 < H" and "t = 1600 \<or> t = 1024 \<or> t = 720 \<or> t = 480"
    and "fit t (fit 1800 (W, H)) = (w, h)"
  shows "aspect_kept (W, H) (w, h)"
proof -
  define c where "c = rat_of_nat t / 1800"
  have c: "c = 8 / 9 \<or> c = 128 / 225 \<or> c = 2 / 5 \<or> c = 4 / 15"
    using assms(3) by (auto simp: c_def)
  then have c01: "0 < c" "c < 1" by auto
  have t: "0 < t" "t < 1800" using assms(3) by auto
  have pos: "0 < rat_of_nat W" "0 < rat_of_nat H" using assms by simp_all
  have b: "(0::nat) < 1800" by simp
  from assms(1,2) b show ?thesis
  proof (cases rule: fit_step)
    case same
    then show ?thesis
      using one_step [OF assms(1,2) t(1), of w h] assms(4) by simp
  next
    case (tall r1)
    let ?q = "rat_of_nat (1800 * W) / rat_of_nat H"
    have r1: "0 < nat r1" "nat r1 \<le> 1800" using tall(3,4) by simp_all
    have s2: "fit t (nat r1, 1800) = (w, h)" using assms(4) tall(7) by simp
    from r1(1) b t(1) show ?thesis
    proof (cases rule: fit_step)
      case same
      then show ?thesis using t by simp
    next
      case (tall r2)
      have wh: "w = nat r2" "h = t" using tall(7) s2 by simp_all
      have "near (c * rat_of_int r1) r2"
        using tall(6) \<open>1 \<le> r1\<close> by (simp add: c_def)
      then have "\<bar>rat_of_int r2 - c * ?q\<bar> \<le> 1"
        using \<open>near ?q r1\<close> pos c01 by (intro near_near [of ?q r1]) simp_all
      moreover have "c * ?q = rat_of_nat (t * W) / rat_of_nat H"
        by (simp add: c_def)
      ultimately have "\<bar>rat_of_int r2 - rat_of_nat (t * W) / rat_of_nat H\<bar> \<le> 1"
        by (simp only:)
      then have "\<bar>r2 * int H - int (t * W)\<bar> \<le> int H"
        by (rule scale_err [OF assms(2)])
      then show ?thesis
        using \<open>W \<le> H\<close> tall(3) by (simp add: aspect_kept_def wh max_def)
    next
      case (wide r2)
      then show ?thesis using r1 by simp
    qed
  next
    case (wide r1)
    let ?q = "rat_of_nat (1800 * H) / rat_of_nat W"
    have r1: "0 < nat r1" "nat r1 \<le> 1800" using wide(3,4) by simp_all
    have s2: "fit t (1800, nat r1) = (w, h)" using assms(4) wide(7) by simp
    have e1: "\<bar>rat_of_int r1 - ?q\<bar> \<le> 1" using wide(6) by (rule harm_err)
    from b r1(1) t(1) show ?thesis
    proof (cases rule: fit_step)
      case same
      then show ?thesis using t by simp
    next
      case (tall r2)
      have wh: "w = nat r2" "h = t" using tall(7) s2 by simp_all
      have r1': "r1 = 1800" using tall(1) r1 \<open>1 \<le> r1\<close> by simp
      have "near (rat_of_nat t) r2" using tall(6) by (simp add: r1')
      then have "rat_of_int (int t) < rat_of_int r2 + 1"
        using t(1) by (cases rule: near_cases) simp_all
      then have "int t \<le> r2" by (rule int_le_from_rat)
      then have r2: "r2 = int t" using tall(4) by simp
      have "\<bar>r1 * int W - int (1800 * H)\<bar> \<le> int W"
        using assms(1) e1 by (intro scale_err)
      then have "1800 * (int W - int H) \<le> int W"
        by (simp add: r1' algebra_simps)
      moreover have "int t * (int W - int H) \<le> 1800 * (int W - int H)"
        using t(2) \<open>H < W\<close> by (intro mult_right_mono) simp_all
      ultimately have "int t * (int W - int H) \<le> int W" by linarith
      then have "int t * int W - int t * int H \<le> int W"
        by (simp add: algebra_simps)
      moreover have "int t * int H \<le> int t * int W"
        using \<open>H < W\<close> by (intro mult_left_mono) simp_all
      ultimately have "\<bar>int t * int H - int t * int W\<bar> \<le> int W"
        by linarith
      then show ?thesis
        using \<open>H < W\<close> by (simp add: aspect_kept_def wh r2 max_def)
    next
      case (wide r2)
      have wh: "w = t" "h = nat r2" using wide(7) s2 by simp_all
      have "harm (c * rat_of_int r1) r2"
        using wide(6) \<open>1 \<le> r1\<close> by (simp add: c_def)
      then have "\<bar>rat_of_int r2 - c * ?q\<bar> \<le> 1"
        using \<open>harm ?q r1\<close> pos c by (intro harm_harm [of ?q r1]) simp_all
      moreover have "c * ?q = rat_of_nat (t * H) / rat_of_nat W"
        by (simp add: c_def)
      ultimately have "\<bar>rat_of_int r2 - rat_of_nat (t * H) / rat_of_nat W\<bar> \<le> 1"
        by (simp only:)
      then have "\<bar>r2 * int W - int (t * H)\<bar> \<le> int W"
        by (rule scale_err [OF assms(1)])
      then show ?thesis
        using \<open>H < W\<close> wide(3) by (simp add: aspect_kept_def wh max_def abs_minus_commute)
    qed
  qed
qed

lemma target_max_values:
  assumes "target_max output_size = Some t"
  shows "t = 1600 \<or> t = 1024 \<or> t = 720 \<or> t = 480"
  using assms by (auto simp: target_max_def size_map_def split: if_splits)

lemma output_resize_fit:
  assumes "0 < height im"
  shows "\<exists>out. output_resize L output_size im = Inr out
     \<and> (width out, height out) =
         (case target_max output_size of None \<Rightarrow> (width im, height im)
          | Some t \<Rightarrow> fit t (width im, height im))"
proof (cases "target_max output_size")
  case None
  then show ?thesis by (simp add: output_resize_def)
next
  case (Some t)
  then have "t \<noteq> 0" using target_max_values [of output_size t] by auto
  with Some thumbnail_fit [OF assms, of L t] show ?thesis
    by (simp add: output_resize_def)
qed

text \<open>
  C2. For every decoded image of positive width and height and every output size
  selector the renderer returns an image whose long edge is at most the cap of the
  selector (1800 for \<open>orig\<close> and for any selector it does not know), whose width
  and height are not larger than those of the input, which has the size of the input
  when the input fits the cap, and whose aspect ratio is the input's to one pixel.
\<close>

theorem output_size_bounds:
  assumes "image_open L image_file = Some opened" and "0 < width opened" and "0 < height opened"
  shows "\<exists>out g'. pencil_sketch L g image_file sketch_style sketch_depth output_size = Inr (out, g')
     \<and> max (width out) (height out) \<le> size_cap output_size
     \<and> width out \<le> width opened \<and> height out \<le> height opened
     \<and> (max (width opened) (height opened) \<le> size_cap output_size \<longrightarrow>
          width out = width opened \<and> height out = height opened)
     \<and> aspect_kept (width opened, height opened) (width out, height out)"
proof -
  let ?W = "width opened" and ?H = "height opened"
  obtain img where img: "thumbnail L (1800, 1800) opened = Inr img"
      "(width img, height img) = fit 1800 (?W, ?H)"
    using thumbnail_fit [OF assms(3), of L 1800] by blast
  have b: "(0::nat) < 1800" by simp
  have s1: "0 < width img \<and> 0 < height img \<and> width img \<le> 1800 \<and> height img \<le> 1800
      \<and> width img \<le> ?W \<and> height img \<le> ?H \<and> aspect_kept (?W, ?H) (width img, height img)
      \<and> (?W \<le> 1800 \<and> ?H \<le> 1800 \<longrightarrow> (width img, height img) = (?W, ?H))"
    by (rule one_step [OF assms(2,3) b img(2) [symmetric]])
  let ?S = "final_sketch L g img sketch_style sketch_depth"
  have fs: "width ?S = width img" "height ?S = height img"
    by simp_all
  have "0 < height ?S" using s1 by simp
  then obtain out where out: "output_resize L output_size ?S = Inr out"
      and sz: "(width out, height out) =
         (case target_max output_size of None \<Rightarrow> (width ?S, height ?S)
          | Some t \<Rightarrow> fit t (width ?S, height ?S))"
    using output_resize_fit [of ?S L output_size] by blast
  note sz = sz [unfolded fs]
  have run: "pencil_sketch L g image_file sketch_style sketch_depth output_size
      = Inr (out, snd (base_sketch L g (gray_base L img)))"
    using assms(1) img(1) out by (simp add: pencil_sketch_def render_final_sketch)
  have "max (width out) (height out) \<le> size_cap output_size
     \<and> width out \<le> ?W \<and> height out \<le> ?H
     \<and> (max ?W ?H \<le> size_cap output_size \<longrightarrow> width out = ?W \<and> height out = ?H)
     \<and> aspect_kept (?W, ?H) (width out, height out)"
  proof (cases "target_max output_size")
    case None
    then have "(width out, height out) = (width img, height img)" using sz by simp
    then have o: "width out = width img" "height out = height img" by simp_all
    show ?thesis using s1 None unfolding o by (simp add: size_cap_def)
  next
    case (Some t)
    then have t: "t = 1600 \<or> t = 1024 \<or> t = 720 \<or> t = 480"
      by (rule target_max_values)
    then have tp: "0 < t" "t \<le> 1800" by auto
    have f: "fit t (width img, height img) = (width out, height out)"
      using sz Some by simp
    have s2: "0 < width out \<and> 0 < height out \<and> width out \<le> t \<and> height out \<le> t
      \<and> width out \<le> width img \<and> height out \<le> height img
      \<and> aspect_kept (width img, height img) (width out, height out)
      \<and> (width img \<le> t \<and> height img \<le> t \<longrightarrow> (width out, height out) = (width img, height img))"
      using s1 by (intro one_step [OF _ _ tp(1) f]) simp_all
    have "fit t (fit 1800 (?W, ?H)) = (width out, height out)"
      using f img(2) by simp
    then have "aspect_kept (?W, ?H) (width out, height out)"
      by (rule two_step [OF assms(2,3) t])
    then show ?thesis
      using s1 s2 tp Some by (simp add: size_cap_def)
  qed
  with run show ?thesis by blast
qed

theorem output_size_bounds_witness:
  "image_open photo_imaging photo_file = Some photo \<and> 0 < width photo \<and> 0 < height photo
   \<and> width photo = 2000 \<and> height photo = 1000 \<and> size_cap ''sm'' = 720
   \<and> (\<exists>out g'. pencil_sketch photo_imaging draws photo_file ''clean'' ''light'' ''sm'' = Inr (out, g')
     \<and> max (width out) (height out) \<le> 720
     \<and> aspect_kept (2000, 1000) (width out, height out))"
proof -
  have a: "image_open photo_imaging photo_file = Some photo" "0 < width photo" "0 < height photo"
    and d: "width photo = 2000" "height photo = 1000"
    by (simp_all add: photo_imaging_def photo_def)
  have c: "size_cap ''sm'' = 720"
    by (simp add: size_cap_def target_max_def size_map_def)
  show ?thesis
    using output_size_bounds [OF a, of draws "''clean''" "''light''" "''sm''"] a
    unfolding d c by blast
qed

end
